theory Spec2Isabelle
  imports Main "HOL-Library.Multiset" "HOL-Library.AList"
begin

section \<open>Dungeom: de Bruijn graph assembly by a retried Eulerian trail search\<close>

text \<open>
  The development embeds the functions of \<^verbatim>\<open>Dungeom.py\<close>:
  \<^verbatim>\<open>de_bruijn_convert\<close>, \<^verbatim>\<open>shuffled_edges\<close>,
  \<^verbatim>\<open>dictionary_of_node_edge_frequencies\<close>, \<^verbatim>\<open>find_tour\<close>,
  \<^verbatim>\<open>find_eulerian_tour\<close>, \<^verbatim>\<open>eulerian_tour_to_superstring\<close> and the main
  block. Python lists are HOL lists, a tuple is a pair, the dictionary is an association
  list with distinct keys (Python dictionaries keep insertion order), exceptions are
  values of the type \<open>error\<close>, and the integers of the degree table are \<open>int\<close>.
  The interpreter's bound on the depth of recursion, which the program sets with
  \<^verbatim>\<open>sys.setrecursionlimit(len(seq))\<close> before the functions are defined, is not part of
  the model: \<^verbatim>\<open>find_tour\<close> recurses as deep as the trail it follows.
\<close>

subsection \<open>Data model\<close>

type_synonym kmer = string
type_synonym edge = "kmer \<times> kmer"
type_synonym freq_dict = "(kmer \<times> int) list"

datatype error = UnboundLocalError | KeyError | IndexError

datatype verdict = Identical | NotIdentical

text \<open>
  The Python slice \<^verbatim>\<open>s[i:j]\<close> for \<open>0 \<le> i \<le> j\<close>: it is clipped to the string and never
  raises.
\<close>

definition slice :: "'a list \<Rightarrow> nat \<Rightarrow> nat \<Rightarrow> 'a list" where
  "slice s i j = take (j - i) (drop i s)"

subsection \<open>K-mer Graph Builder\<close>

text \<open>
  \<^verbatim>\<open>nodes = set()\<close> is kept as a duplicate-free list; \<^verbatim>\<open>nodes.add(x)\<close> is
  \<open>set_add\<close>. The iteration order of a Python set is unspecified, and nothing below depends
  on the order of this list: the degree table is only read by key and summed.
\<close>

definition set_add :: "'a \<Rightarrow> 'a list \<Rightarrow> 'a list" where
  "set_add x ns = (if x \<in> set ns then ns else ns @ [x])"

text \<open>One pass of the body of \<^verbatim>\<open>for i in range(len(str) - k)\<close>.\<close>

definition de_bruijn_step :: "string \<Rightarrow> nat \<Rightarrow> nat \<Rightarrow> edge list \<times> kmer list \<Rightarrow> edge list \<times> kmer list" where
  "de_bruijn_step s k i acc =
     (case acc of (edges, nodes) \<Rightarrow>
        (edges @ [(slice s i (i + k), slice s (i + 1) (i + k + 1))],
         set_add (slice s (i + 1) (i + k + 1)) (set_add (slice s i (i + k)) nodes)))"

text \<open>
  \<^verbatim>\<open>range(len(str) - k)\<close> is empty when \<open>k \<ge> len(str)\<close>, which is what the truncating
  subtraction of \<open>nat\<close> gives as well. The k-mer size is a \<open>nat\<close>: the program reads it with
  \<^verbatim>\<open>int\<close> from a string of digits.
\<close>

definition de_bruijn_convert :: "string \<Rightarrow> nat \<Rightarrow> edge list \<times> kmer list" where
  "de_bruijn_convert s k = fold (de_bruijn_step s k) [0..<length s - k] ([], [])"

subsection \<open>Edge Randomizer\<close>

text \<open>
  \<^verbatim>\<open>random.shuffle\<close> leaves some permutation of the list. The permutation it chooses is
  a parameter \<open>p\<close>, the list of the old positions in their new order; a \<open>p\<close> that is not a
  permutation of the positions is read as the identity.
\<close>

definition shuffle :: "nat list \<Rightarrow> 'a list \<Rightarrow> 'a list" where
  "shuffle p xs = (if sort p = [0..<length xs] then map (\<lambda>i. xs ! i) p else xs)"

text \<open>
  The loop \<^verbatim>\<open>for edge in graph\<close> of \<^verbatim>\<open>shuffled_edges\<close>, with the iterator's index
  \<open>i\<close>: the list is shortened by \<^verbatim>\<open>graph.remove(edge)\<close> while it is scanned. The state
  is the flag \<^verbatim>\<open>first_element\<close>, the variable \<^verbatim>\<open>first_edge\<close> (unbound at the start)
  and the list.
\<close>

function shuffled_edges_loop :: "nat \<Rightarrow> bool \<Rightarrow> 'a option \<Rightarrow> 'a list \<Rightarrow> 'a option \<times> 'a list" where
  "shuffled_edges_loop i first_element first_edge graph =
     (if i < length graph then
        (if first_element
         then shuffled_edges_loop (i + 1) False (Some (graph ! i)) (remove1 (graph ! i) graph)
         else shuffled_edges_loop (i + 1) first_element first_edge graph)
      else (first_edge, graph))"
  by pat_completeness auto
termination
  by (relation "measure (\<lambda>(i, f, e, g). length g - i)") (auto simp: length_remove1)

declare shuffled_edges_loop.simps [simp del]

definition shuffled_edges :: "nat list \<Rightarrow> 'a list \<Rightarrow> error + 'a list" where
  "shuffled_edges p graph =
     (case shuffled_edges_loop 0 True None graph of
        (None, g) \<Rightarrow> Inl UnboundLocalError
      | (Some first_edge, g) \<Rightarrow> Inr (first_edge # shuffle p g))"

subsection \<open>Degree Tracker\<close>

text \<open>\<^verbatim>\<open>nodes.index(node)\<close>: the first position of \<open>node\<close>.\<close>

fun index_of :: "'a list \<Rightarrow> 'a \<Rightarrow> nat" where
  "index_of [] x = 0"
| "index_of (y # ys) x = (if y = x then 0 else Suc (index_of ys x))"

text \<open>The inner loop \<^verbatim>\<open>for (a,b) in edges\<close> for one node, updating \<^verbatim>\<open>result\<close>.\<close>

definition count_node :: "kmer list \<Rightarrow> edge list \<Rightarrow> kmer \<Rightarrow> int list \<Rightarrow> int list" where
  "count_node nodes edges node result =
     fold (\<lambda>e res. case e of (a, b) \<Rightarrow>
             if node = a \<or> node = b
             then res[index_of nodes node := res ! index_of nodes node + 1]
             else res)
          edges result"

text \<open>\<^verbatim>\<open>dict(zip(nodes, result))\<close>: a later pair overwrites an earlier one with its key.\<close>

definition dict_of :: "(kmer \<times> int) list \<Rightarrow> freq_dict" where
  "dict_of kvs = fold (\<lambda>kv d. AList.update (fst kv) (snd kv) d) kvs []"

definition dictionary_of_node_edge_frequencies :: "edge list \<Rightarrow> kmer list \<Rightarrow> freq_dict" where
  "dictionary_of_node_edge_frequencies edges nodes =
     dict_of (zip nodes (fold (count_node nodes edges) nodes (replicate (length nodes) 0)))"

text \<open>\<^verbatim>\<open>sum(freq_dict.values())\<close>.\<close>

definition dict_sum :: "freq_dict \<Rightarrow> int" where
  "dict_sum d = sum_list (map snd d)"

text \<open>\<^verbatim>\<open>kmer_dict[a] -= 1\<close>: a missing key raises.\<close>

definition dict_decr :: "kmer \<Rightarrow> freq_dict \<Rightarrow> error + freq_dict" where
  "dict_decr a d =
     (case map_of d a of None \<Rightarrow> Inl KeyError | Some v \<Rightarrow> Inr (AList.update a (v - 1) d))"

subsection \<open>Eulerian Trail Finder\<close>

text \<open>
  The objects \<^verbatim>\<open>find_tour\<close> mutates: the list \<^verbatim>\<open>Edges\<close>, the list \<^verbatim>\<open>tour\<close> and the
  dictionary \<^verbatim>\<open>kmer_dict\<close>. All recursive calls share them.
\<close>

record tour_state =
  Edges :: "edge list"
  tour :: "kmer list"
  kmer_dict :: freq_dict

text \<open>
  \<^verbatim>\<open>find_tour\<close> from position \<open>i\<close> of its loop \<^verbatim>\<open>for (a,b) in Edges\<close>. The list iterator
  keeps an index: it stops when the index reaches the current length of the list and reads
  the element at the index otherwise, whatever has been removed in between.
  \<^verbatim>\<open>Edges.remove((a,b))\<close> removes the first equal pair. An exception ends the whole run.
\<close>

function find_tour_from :: "kmer \<Rightarrow> nat \<Rightarrow> tour_state \<Rightarrow> error + tour_state" where
  "find_tour_from current i st =
     (if i < length (Edges st) then
        (case Edges st ! i of (a, b) \<Rightarrow>
           if a = current then
             (case dict_decr a (kmer_dict st) of
                Inl e \<Rightarrow> Inl e
              | Inr d1 \<Rightarrow>
                 (case dict_decr b d1 of
                    Inl e \<Rightarrow> Inl e
                  | Inr d2 \<Rightarrow>
                     (case find_tour_from b 0
                             (st\<lparr>Edges := remove1 (a, b) (Edges st), kmer_dict := d2\<rparr>) of
                        Inl e \<Rightarrow> Inl e
                      | Inr st' \<Rightarrow> find_tour_from current (i + 1) st')))
           else find_tour_from current (i + 1) st)
      else Inr (st\<lparr>tour := current # tour st\<rparr>))"
  by pat_completeness auto

text \<open>
  The recursive call of \<^verbatim>\<open>find_tour\<close> never gives edges back, which is why the scan
  ends: either the list got shorter, or the index moved towards its end.
\<close>

lemma find_tour_from_len:
  "find_tour_from_dom (c, i, st) \<Longrightarrow> find_tour_from c i st = Inr st' \<Longrightarrow>
   length (Edges st') \<le> length (Edges st)"
proof (induction c i st arbitrary: st' rule: find_tour_from.pinduct)
  case (1 current i st)
  show ?case
  proof (cases "i < length (Edges st)")
    case False
    with "1.prems" "1.hyps" show ?thesis by (auto simp: find_tour_from.psimps)
  next
    case True
    obtain a b where ab: "Edges st ! i = (a, b)" by (cases "Edges st ! i")
    show ?thesis
    proof (cases "a = current")
      case False
      with True ab "1.prems" "1.hyps" have "find_tour_from current (i + 1) st = Inr st'"
        by (simp add: find_tour_from.psimps)
      with "1.IH"(3)[OF True ab[symmetric] False] show ?thesis by simp
    next
      case ac: True
      from True ab ac "1.prems" "1.hyps" obtain d1 d2 st1 where
        d1: "dict_decr a (kmer_dict st) = Inr d1" and d2: "dict_decr b d1 = Inr d2"
        and r1: "find_tour_from b 0
                   (st\<lparr>Edges := remove1 (a, b) (Edges st), kmer_dict := d2\<rparr>) = Inr st1"
        and r2: "find_tour_from current (i + 1) st1 = Inr st'"
        by (auto simp: find_tour_from.psimps split: sum.splits)
      have "length (Edges st1) \<le> length (remove1 (a, b) (Edges st))"
        using "1.IH"(1)[OF True ab[symmetric] ac d1 d2 r1] by simp
      moreover have "length (Edges st') \<le> length (Edges st1)"
        using "1.IH"(2)[OF True ab[symmetric] ac d1 d2 r1 r2] .
      ultimately show ?thesis by (simp add: length_remove1 split: if_splits)
    qed
  qed
qed

termination find_tour_from
proof (relation "measures [\<lambda>(c, i, st). length (Edges st),
                           \<lambda>(c, i, st). length (Edges st) - i]", goal_cases)
  case 1
  show ?case by simp
next
  case (2 current i st x y d1 d2)
  then have "(x, y) \<in> set (Edges st)" by (metis nth_mem)
  then show ?case
    by (simp add: length_remove1) (metis length_pos_if_in_set Suc_pred lessI)
next
  case (3 current i st x y d1 d2 st')
  then have m: "(x, y) \<in> set (Edges st)" by (metis nth_mem)
  from 3 have "length (Edges st') \<le> length (remove1 (x, y) (Edges st))"
    using find_tour_from_len by fastforce
  with m 3 show ?case by (auto simp: length_remove1)
next
  case 4
  then show ?case by auto
qed

declare find_tour_from.simps [simp del]

text \<open>\<^verbatim>\<open>find_tour(current, Edges, tour, kmer_dict)\<close>.\<close>

definition find_tour :: "kmer \<Rightarrow> edge list \<Rightarrow> kmer list \<Rightarrow> freq_dict \<Rightarrow> error + tour_state" where
  "find_tour current es tr d = find_tour_from current 0 \<lparr>Edges = es, tour = tr, kmer_dict = d\<rparr>"

text \<open>
  The body of the loop of \<^verbatim>\<open>find_eulerian_tour\<close>, one traversal attempt: the graph is
  built again from the globals \<^verbatim>\<open>seq\<close> and \<^verbatim>\<open>kmer\<close>, shuffled with the permutation
  \<open>p\<close>, counted, and searched from \<^verbatim>\<open>graph[0][0]\<close>.
\<close>

definition attempt :: "string \<Rightarrow> nat \<Rightarrow> nat list \<Rightarrow> error + tour_state" where
  "attempt seq kmer p =
     (case de_bruijn_convert seq kmer of (edges, nodes) \<Rightarrow>
        (case shuffled_edges p edges of
           Inl e \<Rightarrow> Inl e
         | Inr graph \<Rightarrow>
            (case graph of
               [] \<Rightarrow> Inl IndexError
             | e0 # _ \<Rightarrow>
                 find_tour (fst e0) graph [] (dictionary_of_node_edge_frequencies graph nodes))))"

text \<open>
  The loop \<^verbatim>\<open>while sum(freq_dict.values()) != 0\<close>. It has no bound on the number of
  attempts, so not returning is the value \<open>None\<close>. The \<open>t\<close>-th call of the shuffle chooses
  the permutation \<open>ps t\<close>; \<open>tour_var\<close> is the variable \<^verbatim>\<open>tour\<close>, unbound until the first
  attempt.
\<close>

partial_function (option) find_eulerian_while ::
  "(nat \<Rightarrow> nat list) \<Rightarrow> string \<Rightarrow> nat \<Rightarrow> nat \<Rightarrow> freq_dict \<Rightarrow> kmer list option \<Rightarrow>
   (error + kmer list) option" where
  "find_eulerian_while ps seq kmer t freq_dict tour_var =
     (if dict_sum freq_dict \<noteq> 0 then
        (case attempt seq kmer (ps t) of
           Inl e \<Rightarrow> Some (Inl e)
         | Inr st \<Rightarrow> find_eulerian_while ps seq kmer (t + 1) (kmer_dict st) (Some (tour st)))
      else
        (case tour_var of
           None \<Rightarrow> Some (Inl UnboundLocalError)
         | Some tr \<Rightarrow> Some (Inr tr)))"

declare find_eulerian_while.simps [code]

definition find_eulerian_tour ::
  "(nat \<Rightarrow> nat list) \<Rightarrow> string \<Rightarrow> nat \<Rightarrow> edge list \<Rightarrow> (error + kmer list) option" where
  "find_eulerian_tour ps seq kmer graph =
     (case de_bruijn_convert seq kmer of (edges, nodes) \<Rightarrow>
        find_eulerian_while ps seq kmer 1
          (dictionary_of_node_edge_frequencies graph nodes) None)"

subsection \<open>Superstring Reconstructor and Verifier\<close>

text \<open>
  The loop of \<^verbatim>\<open>eulerian_tour_to_superstring\<close> with its flag \<^verbatim>\<open>first_word\<close>;
  \<^verbatim>\<open>word[-1]\<close> raises on the empty string.
\<close>

fun superstring_loop :: "string list \<Rightarrow> string \<Rightarrow> bool \<Rightarrow> error + string" where
  "superstring_loop [] superstring first_word = Inr superstring"
| "superstring_loop (word # ws) superstring first_word =
     (if first_word then superstring_loop ws (superstring @ word) False
      else if word = [] then Inl IndexError
      else superstring_loop ws (superstring @ [last word]) first_word)"

definition eulerian_tour_to_superstring :: "string list \<Rightarrow> error + string" where
  "eulerian_tour_to_superstring graph = superstring_loop graph [] True"

definition verifier :: "string \<Rightarrow> string \<Rightarrow> verdict" where
  "verifier assembled_seq seq = (if assembled_seq = seq then Identical else NotIdentical)"

subsection \<open>The main block\<close>

text \<open>
  The first shuffle of the run uses \<open>ps 0\<close>. The result is the printed sequence and verdict,
  an exception, or \<open>None\<close> when the search never ends.
\<close>

definition main :: "(nat \<Rightarrow> nat list) \<Rightarrow> string \<Rightarrow> nat \<Rightarrow> (error + string \<times> verdict) option" where
  "main ps seq kmer =
     (case de_bruijn_convert seq kmer of (edges, nodes) \<Rightarrow>
        (case shuffled_edges (ps 0) edges of
           Inl e \<Rightarrow> Some (Inl e)
         | Inr graph \<Rightarrow>
            (case find_eulerian_tour ps seq kmer graph of
               None \<Rightarrow> None
             | Some (Inl e) \<Rightarrow> Some (Inl e)
             | Some (Inr tour_list) \<Rightarrow>
                (case eulerian_tour_to_superstring tour_list of
                   Inl e \<Rightarrow> Some (Inl e)
                 | Inr assembled_seq \<Rightarrow>
                     Some (Inr (assembled_seq, verifier assembled_seq seq))))))"

section \<open>Properties\<close>

subsection \<open>The Graph Builder\<close>

lemma fold_de_bruijn_step_fst:
  "fst (fold (de_bruijn_step s k) js (es, ns)) =
   es @ map (\<lambda>i. (slice s i (i + k), slice s (i + 1) (i + k + 1))) js"
  by (induction js arbitrary: es ns) (simp_all add: de_bruijn_step_def)

lemma de_bruijn_convert_edges:
  "fst (de_bruijn_convert s k) =
   map (\<lambda>i. (slice s i (i + k), slice s (i + 1) (i + k + 1))) [0..<length s - k]"
  by (simp add: de_bruijn_convert_def fold_de_bruijn_step_fst)

lemma set_set_add: "set (set_add x ns) = insert x (set ns)"
  by (auto simp: set_add_def)

lemma distinct_set_add: "distinct ns \<Longrightarrow> distinct (set_add x ns)"
  by (simp add: set_add_def)

lemma fold_de_bruijn_step_snd:
  "set (snd (fold (de_bruijn_step s k) js (es, ns))) =
   set ns \<union> (\<Union>i\<in>set js. {slice s i (i + k), slice s (i + 1) (i + k + 1)})"
  by (induction js arbitrary: es ns) (auto simp: de_bruijn_step_def set_set_add)

lemma fold_de_bruijn_step_distinct:
  "distinct ns \<Longrightarrow> distinct (snd (fold (de_bruijn_step s k) js (es, ns)))"
  by (induction js arbitrary: es ns) (simp_all add: de_bruijn_step_def distinct_set_add)

lemma de_bruijn_convert_nodes_set:
  "set (snd (de_bruijn_convert s k)) =
   (\<Union>i\<in>{0..<length s - k}. {slice s i (i + k), slice s (i + 1) (i + k + 1)})"
  by (simp add: de_bruijn_convert_def fold_de_bruijn_step_snd)

lemma de_bruijn_convert_nodes_distinct: "distinct (snd (de_bruijn_convert s k))"
  by (simp add: de_bruijn_convert_def fold_de_bruijn_step_distinct)

lemma slice_prefix: "slice s i (i + k) = take k (slice s i (i + k + 1))"
  by (simp add: slice_def min_def)

lemma slice_suffix: "slice s (i + 1) (i + k + 1) = drop 1 (slice s i (i + k + 1))"
  by (simp add: slice_def drop_take add.commute)

text \<open>
  Claim C5. For a valid input, \<open>1 \<le> k < L\<close>, the Graph Builder returns exactly \<open>L - k\<close>
  edges; the edge at offset \<open>i\<close> is the pair of \<^verbatim>\<open>sequence[i:i+k]\<close> and
  \<^verbatim>\<open>sequence[i+1:i+k+1]\<close>, so the edges are in the order of the offsets; and two offsets
  with the same (k+1)-mer give two equal entries of the list, none is dropped.
\<close>

theorem graph_builder_edges: 
  assumes "1 \<le> k" and "k < length s"
  shows "length (fst (de_bruijn_convert s k)) = length s - k \<and>
     (\<forall>i < length s - k.
        fst (de_bruijn_convert s k) ! i = (slice s i (i + k), slice s (i + 1) (i + k + 1))) \<and>
     (\<forall>i < length s - k. \<forall>j < length s - k.
        slice s i (i + k + 1) = slice s j (j + k + 1) \<longrightarrow>
        fst (de_bruijn_convert s k) ! i = fst (de_bruijn_convert s k) ! j)"
proof (intro conjI allI impI)
  show "length (fst (de_bruijn_convert s k)) = length s - k"
    by (simp add: de_bruijn_convert_edges)
next
  fix i assume "i < length s - k"
  then show "fst (de_bruijn_convert s k) ! i = (slice s i (i + k), slice s (i + 1) (i + k + 1))"
    by (simp add: de_bruijn_convert_edges)
next
  fix i j assume "i < length s - k" "j < length s - k"
    and eq: "slice s i (i + k + 1) = slice s j (j + k + 1)"
  have "slice s i (i + k) = slice s j (j + k)"
    by (simp only: slice_prefix eq)
  moreover have "slice s (i + 1) (i + k + 1) = slice s (j + 1) (j + k + 1)"
    by (simp only: slice_suffix eq)
  ultimately show "fst (de_bruijn_convert s k) ! i = fst (de_bruijn_convert s k) ! j"
    using \<open>i < length s - k\<close> \<open>j < length s - k\<close> by (simp add: de_bruijn_convert_edges)
qed

theorem graph_builder_edges_witness: "(1::nat) \<le> 1 \<and> 1 < length ''AAAA'' \<and> 
   length (fst (de_bruijn_convert ''AAAA'' 1)) = 3 \<and>
   fst (de_bruijn_convert ''AAAA'' 1) ! 0 = (''A'', ''A'') \<and>
   fst (de_bruijn_convert ''AAAA'' 1) ! 2 = fst (de_bruijn_convert ''AAAA'' 1) ! 0"
  using graph_builder_edges[of 1 "''AAAA''"] by (simp add: slice_def)

text \<open>
  Claim C9 says that the Graph Builder fails for \<open>k \<ge> L\<close>. It does not: the range of the
  loop is empty and the slices are never taken, so the empty graph is returned.
\<close>

theorem graph_builder_large_k_counterexample: "de_bruijn_convert ''ACG'' 3 = ([], [])"
  by (simp add: de_bruijn_convert_def)

text \<open>
  Claim C9, amended. For every \<open>k \<ge> L\<close> the Graph Builder returns the empty edge list and
  the empty node set, without failing.
\<close>

theorem graph_builder_large_k_empty: "length s \<le> k \<Longrightarrow> de_bruijn_convert s k = ([], [])"
  by (simp add: de_bruijn_convert_def)

theorem graph_builder_large_k_empty_witness: "length ''ACGT'' \<le> (7::nat) \<and> de_bruijn_convert ''ACGT'' 7 = ([], [])"
  using graph_builder_large_k_empty[of "''ACGT''" 7] by simp

subsection \<open>The Edge Randomizer\<close>

lemma shuffled_edges_loop_False:
  "shuffled_edges_loop i False fe g = (fe, g)"
proof (induction "length g - i" arbitrary: i)
  case 0
  then show ?case by (subst shuffled_edges_loop.simps) simp
next
  case (Suc n)
  then have "shuffled_edges_loop (i + 1) False fe g = (fe, g)" by simp
  then show ?case by (subst shuffled_edges_loop.simps) simp
qed

lemma shuffled_edges_loop_Cons:
  "shuffled_edges_loop 0 True None (x # xs) = (Some x, xs)"
  by (subst shuffled_edges_loop.simps) (simp add: shuffled_edges_loop_False)

lemma shuffled_edges_loop_Nil:
  "shuffled_edges_loop 0 True None [] = (None, [])"
  by (subst shuffled_edges_loop.simps) simp

lemma mset_shuffle: "mset (shuffle p xs) = mset xs"
proof (cases "sort p = [0..<length xs]")
  case False
  then show ?thesis by (simp add: shuffle_def)
next
  case True
  have "mset p = mset (sort p)" by simp
  also have "\<dots> = mset [0..<length xs]" by (simp only: True)
  finally have "mset (map (\<lambda>i. xs ! i) p) = mset (map (\<lambda>i. xs ! i) [0..<length xs])"
    by (metis mset_map)
  then show ?thesis using True by (simp add: shuffle_def map_nth)
qed

lemma shuffled_edges_Cons: "shuffled_edges p (x # xs) = Inr (x # shuffle p xs)"
  by (simp add: shuffled_edges_def shuffled_edges_loop_Cons)

lemma shuffled_edges_Nil: "shuffled_edges p [] = Inl UnboundLocalError"
  by (simp add: shuffled_edges_def shuffled_edges_loop_Nil)

text \<open>
  Claim C6. On a non-empty list the Edge Randomizer returns a list with the same multiset
  of elements, whose first element is the first element of the input, and whose remaining
  elements are the remaining elements of the input as a multiset. This holds for every
  choice \<open>p\<close> of the shuffle.
\<close>

theorem shuffled_edges_permutation:
  "graph \<noteq> [] \<Longrightarrow>
   \<exists>out. shuffled_edges p graph = Inr out \<and> mset out = mset graph \<and>
         hd out = hd graph \<and> mset (tl out) = mset (tl graph)"
  by (cases graph) (simp_all add: shuffled_edges_Cons mset_shuffle)

theorem shuffled_edges_permutation_witness:
  "[(''A'', ''C''), (''C'', ''G''), (''G'', ''T'')] \<noteq> [] \<and>
   (\<exists>out. shuffled_edges [1, 0] [(''A'', ''C''), (''C'', ''G''), (''G'', ''T'')] = Inr out \<and>
          mset out = mset [(''A'', ''C''), (''C'', ''G''), (''G'', ''T'')] \<and>
          hd out = (''A'', ''C'') \<and> mset (tl out) = mset [(''C'', ''G''), (''G'', ''T'')])"
  using shuffled_edges_permutation[of "[(''A'', ''C''), (''C'', ''G''), (''G'', ''T'')]" "[1, 0]"] by simp

subsection \<open>The Superstring Reconstructor\<close>

lemma superstring_loop_rest:
  "\<forall>w\<in>set ws. w \<noteq> [] \<Longrightarrow> superstring_loop ws acc False = Inr (acc @ map last ws)"
  by (induction ws arbitrary: acc) simp_all

lemma superstring_loop_rest_fail:
  "\<exists>w\<in>set ws. w = [] \<Longrightarrow> superstring_loop ws acc False = Inl IndexError"
  by (induction ws arbitrary: acc) auto

lemma eulerian_tour_to_superstring_Cons:
  "eulerian_tour_to_superstring (w # ws) =
   (if \<exists>v\<in>set ws. v = [] then Inl IndexError else Inr (w @ map last ws))"
  using superstring_loop_rest[of ws w] superstring_loop_rest_fail[of ws w]
  by (auto simp: eulerian_tour_to_superstring_def)

text \<open>
  Claim C7. For a non-empty tour of k-mers of one length \<open>k\<close> (\<open>k \<ge> 1\<close>, as everywhere in
  the program) the Reconstructor does not fail and returns the first node followed by the
  last symbol of each later node.
\<close>

theorem superstring_uniform_kmers:
  "tr \<noteq> [] \<Longrightarrow> 0 < k \<Longrightarrow> \<forall>w\<in>set tr. length w = k \<Longrightarrow>
   eulerian_tour_to_superstring tr = Inr (hd tr @ map last (tl tr))"
  by (cases tr) (auto simp: eulerian_tour_to_superstring_Cons)

theorem superstring_uniform_kmers_witness:
  "[''AT'', ''TG'', ''GG''] \<noteq> [] \<and> (0::nat) < 2 \<and>
   length ''AT'' = 2 \<and> length ''TG'' = 2 \<and> length ''GG'' = 2 \<and>
   eulerian_tour_to_superstring [''AT'', ''TG'', ''GG''] = Inr ''ATGG''"
  using superstring_uniform_kmers[of "[''AT'', ''TG'', ''GG'']" 2] by simp

text \<open>
  Claim C10 says that the Reconstructor is total on all lists of strings and asks nothing
  of the elements. An empty string after the first element makes \<^verbatim>\<open>word[-1]\<close> raise.
\<close>

theorem superstring_empty_word_counterexample: "eulerian_tour_to_superstring [''A'', ''''] = Inl IndexError"
  by (simp add: eulerian_tour_to_superstring_def)

text \<open>
  Claim C10, amended. The Reconstructor fails exactly when an element after the first is the
  empty string. Otherwise it returns the empty string on the empty tour and the first element
  followed by the last character of each later element on a non-empty one; the first element
  may be empty and the lengths need not agree.
\<close>

theorem superstring_total_on_nonempty_words:
  "eulerian_tour_to_superstring tr =
     (if \<exists>w\<in>set (tl tr). w = [] then Inl IndexError
      else Inr (case tr of [] \<Rightarrow> [] | w # ws \<Rightarrow> w @ map last ws))"
  by (cases tr) (simp_all add: eulerian_tour_to_superstring_Cons, simp add: eulerian_tour_to_superstring_def)

theorem superstring_total_on_nonempty_words_witness:
  "eulerian_tour_to_superstring ['''', ''AB'', ''C''] = Inr ''BC'' \<and>
   eulerian_tour_to_superstring [] = Inr []"
  using superstring_total_on_nonempty_words[of "['''', ''AB'', ''C'']"]
    superstring_total_on_nonempty_words[of "[]"]
  by simp

subsection \<open>The Degree Tracker\<close>

lemma index_of_less: "x \<in> set xs \<Longrightarrow> index_of xs x < length xs"
  by (induction xs) auto

lemma nth_index_of: "x \<in> set xs \<Longrightarrow> xs ! index_of xs x = x"
  by (induction xs) auto

lemma index_of_nth: "distinct xs \<Longrightarrow> j < length xs \<Longrightarrow> index_of xs (xs ! j) = j"
proof (induction xs arbitrary: j)
  case Nil
  then show ?case by simp
next
  case (Cons x xs)
  then show ?case by (cases j) auto
qed

lemma count_node_fold:
  "j < length res \<Longrightarrow>
   fold (\<lambda>e res. case e of (a, b) \<Rightarrow>
           if node = a \<or> node = b then res[j := res ! j + 1] else res) es res =
   res[j := res ! j + int (length (filter (\<lambda>e. node = fst e \<or> node = snd e) es))]"
proof (induction es arbitrary: res)
  case Nil
  then show ?case by simp
next
  case (Cons e es)
  obtain a b where e: "e = (a, b)" by (cases e)
  show ?case
  proof (cases "node = a \<or> node = b")
    case True
    with Cons.prems Cons.IH[of "res[j := res ! j + 1]"] e show ?thesis
      by (simp add: add.assoc)
  next
    case False
    with Cons.prems Cons.IH[of res] e show ?thesis by simp
  qed
qed

lemma count_node_eq:
  "node \<in> set nodes \<Longrightarrow> length res = length nodes \<Longrightarrow>
   count_node nodes edges node res =
   res[index_of nodes node := res ! index_of nodes node +
         int (length (filter (\<lambda>e. node = fst e \<or> node = snd e) edges))]"
  unfolding count_node_def by (rule count_node_fold) (simp add: index_of_less)

lemma fold_count_node:
  "length res = length ns \<Longrightarrow> distinct ms \<Longrightarrow> set ms \<subseteq> set ns \<Longrightarrow> distinct ns \<Longrightarrow>
   fold (count_node ns es) ms res =
   map (\<lambda>j. res ! j + (if ns ! j \<in> set ms
                        then int (length (filter (\<lambda>e. ns ! j = fst e \<or> ns ! j = snd e) es))
                        else 0)) [0..<length ns]"
proof (induction ms arbitrary: res)
  case Nil
  have "map (\<lambda>j. res ! j) [0..<length res] = res" by (rule map_nth)
  with Nil.prems(1) show ?case by simp
next
  case (Cons m ms)
  let ?i = "index_of ns m"
  let ?c = "\<lambda>n. int (length (filter (\<lambda>e. n = fst e \<or> n = snd e) es))"
  let ?res1 = "res[?i := res ! ?i + ?c m]"
  from Cons.prems have m: "m \<in> set ns" "m \<notin> set ms" by auto
  have i: "?i < length ns" "ns ! ?i = m" using m by (simp_all add: index_of_less nth_index_of)
  have step: "count_node ns es m res = ?res1"
    using m Cons.prems by (simp add: count_node_eq)
  have "fold (count_node ns es) (m # ms) res = fold (count_node ns es) ms ?res1"
    by (simp add: step)
  also have "\<dots> = map (\<lambda>j. ?res1 ! j + (if ns ! j \<in> set ms then ?c (ns ! j) else 0)) [0..<length ns]"
  proof (rule Cons.IH)
    show "length ?res1 = length ns" using Cons.prems(1) by simp
    show "distinct ms" using Cons.prems(2) by simp
    show "set ms \<subseteq> set ns" using Cons.prems(3) by simp
    show "distinct ns" by (rule Cons.prems(4))
  qed
  also have "\<dots> = map (\<lambda>j. res ! j + (if ns ! j \<in> set (m # ms) then ?c (ns ! j) else 0)) [0..<length ns]"
  proof (rule map_cong[OF refl])
    fix j assume "j \<in> set [0..<length ns]"
    then have j: "j < length ns" by simp
    show "?res1 ! j + (if ns ! j \<in> set ms then ?c (ns ! j) else 0) =
          res ! j + (if ns ! j \<in> set (m # ms) then ?c (ns ! j) else 0)"
    proof (cases "j = ?i")
      case True
      have "?res1 ! j = res ! j + ?c m" using True i(1) Cons.prems(1) by simp
      moreover have "ns ! j = m" using True i(2) by simp
      ultimately show ?thesis using m(2) by simp
    next
      case False
      have "ns ! j \<noteq> m"
      proof
        assume "ns ! j = m"
        then have "index_of ns (ns ! j) = ?i" by simp
        with index_of_nth[OF \<open>distinct ns\<close> j] False show False by simp
      qed
      moreover have "?res1 ! j = res ! j" using False by simp
      ultimately show ?thesis by simp
    qed
  qed
  finally show ?case .
qed


lemma fold_update_distinct:
  "distinct (map fst (d @ kvs)) \<Longrightarrow>
   fold (\<lambda>kv d. AList.update (fst kv) (snd kv) d) kvs d = d @ kvs"
proof (induction kvs arbitrary: d)
  case Nil
  then show ?case by simp
next
  case (Cons kv kvs)
  have "AList.update (fst kv) (snd kv) d = d @ [kv]"
    using Cons.prems by (induction d) auto
  with Cons.IH[of "d @ [kv]"] Cons.prems show ?case by simp
qed

lemma dict_of_distinct: "distinct (map fst kvs) \<Longrightarrow> dict_of kvs = kvs"
  using fold_update_distinct[of "[]" kvs] by (simp add: dict_of_def)

lemma zip_map_nth: "zip ns (map (\<lambda>j. f (ns ! j)) [0..<length ns]) = map (\<lambda>n. (n, f n)) ns"
  by (rule nth_equalityI) simp_all

lemma dictionary_distinct:
  assumes "distinct nodes"
  shows "dictionary_of_node_edge_frequencies edges nodes =
         map (\<lambda>n. (n, int (length (filter (\<lambda>e. n = fst e \<or> n = snd e) edges)))) nodes"
proof -
  have "fold (count_node nodes edges) nodes (replicate (length nodes) 0) =
        map (\<lambda>j. int (length (filter (\<lambda>e. nodes ! j = fst e \<or> nodes ! j = snd e) edges)))
          [0..<length nodes]"
    using assms by (subst fold_count_node) (auto intro!: map_cong)
  moreover have "distinct (map fst (map (\<lambda>n. (n, int (length (filter (\<lambda>e. n = fst e \<or> n = snd e) edges)))) nodes))"
    using assms by (simp add: comp_def)
  ultimately show ?thesis
    unfolding dictionary_of_node_edge_frequencies_def
    using zip_map_nth[of nodes "\<lambda>n. int (length (filter (\<lambda>e. n = fst e \<or> n = snd e) edges))"]
    by (simp only: dict_of_distinct)
qed

lemma sum_list_incident:
  "distinct ns \<Longrightarrow>
   (\<Sum>n\<leftarrow>ns. if n = a \<or> n = b then (1::int) else 0) =
   (if a \<in> set ns then 1 else 0) + (if b \<in> set ns \<and> b \<noteq> a then 1 else 0)"
  by (induction ns) auto

lemma dict_sum_dictionary:
  assumes "distinct nodes" and "\<forall>e\<in>set edges. fst e \<in> set nodes \<and> snd e \<in> set nodes"
  shows "dict_sum (dictionary_of_node_edge_frequencies edges nodes) =
         (\<Sum>e\<leftarrow>edges. if fst e = snd e then 1 else 2)"
  using assms(2)
proof (induction edges)
  case Nil
  with assms(1) show ?case by (simp add: dictionary_distinct dict_sum_def comp_def)
next
  case (Cons e es)
  let ?c = "\<lambda>es n. int (length (filter (\<lambda>e. n = fst e \<or> n = snd e) es))"
  have split: "(\<Sum>n\<leftarrow>nodes. ?c (e # es) n) =
        (\<Sum>n\<leftarrow>nodes. if n = fst e \<or> n = snd e then 1 else 0) + (\<Sum>n\<leftarrow>nodes. ?c es n)"
    by (simp add: sum_list_addf[symmetric]) (rule arg_cong[where f=sum_list], auto)
  have "dict_sum (dictionary_of_node_edge_frequencies (e # es) nodes) = (\<Sum>n\<leftarrow>nodes. ?c (e # es) n)"
    using assms(1) by (simp add: dictionary_distinct dict_sum_def comp_def)
  also have "\<dots> = (if fst e = snd e then 1 else 2) + (\<Sum>n\<leftarrow>nodes. ?c es n)"
    using Cons.prems assms(1) by (simp only: split sum_list_incident) auto
  also have "(\<Sum>n\<leftarrow>nodes. ?c es n) = dict_sum (dictionary_of_node_edge_frequencies es nodes)"
    using assms(1) by (simp add: dictionary_distinct dict_sum_def comp_def)
  finally show ?case using Cons by simp
qed

lemma dictionary_keys:
  "distinct nodes \<Longrightarrow> map fst (dictionary_of_node_edge_frequencies edges nodes) = nodes"
  by (simp add: dictionary_distinct comp_def)

text \<open>The decrement \<^verbatim>\<open>kmer_dict[a] -= 1\<close>.\<close>

lemma dict_decr_sum: "dict_decr a d = Inr d' \<Longrightarrow> dict_sum d' = dict_sum d - 1"
proof (induction d arbitrary: d')
  case Nil
  then show ?case by (simp add: dict_decr_def)
next
  case (Cons kv d)
  obtain k v where kv: "kv = (k, v)" by (cases kv)
  show ?case
  proof (cases "k = a")
    case True
    with Cons.prems kv show ?thesis by (auto simp: dict_decr_def dict_sum_def)
  next
    case False
    with Cons.prems kv obtain d0 where d0: "dict_decr a d = Inr d0" and d': "d' = kv # d0"
      by (auto simp: dict_decr_def split: option.splits)
    from Cons.IH[OF d0] d' show ?thesis by (simp add: dict_sum_def)
  qed
qed

lemma dict_decr_keys: "dict_decr a d = Inr d' \<Longrightarrow> map fst d' = map fst d"
proof -
  assume r: "dict_decr a d = Inr d'"
  then obtain v where v: "map_of d a = Some v" and d': "d' = AList.update a (v - 1) d"
    by (auto simp: dict_decr_def split: option.splits)
  from v have "a \<in> fst ` set d" by (metis domI dom_map_of_conv_image_fst)
  with d' show ?thesis by (simp add: update_keys)
qed

lemma dict_decr_ok: "a \<in> set (map fst d) \<Longrightarrow> \<exists>d'. dict_decr a d = Inr d'"
  by (cases "map_of d a") (auto simp: dict_decr_def map_of_eq_None_iff)

text \<open>
  Claim C2 says that a self-loop counts twice for its node. The test
  \<^verbatim>\<open>node == a or node == b\<close> adds one for an edge, also when both ends are the node: the
  three equal edges of \<^verbatim>\<open>AAAA\<close> with \<open>k = 1\<close> are counted separately, but give the
  node \<^verbatim>\<open>A\<close> the value 3, not 6. The lemma \<open>dict_sum_dictionary\<close> above is the
  general form: a self-loop adds one to the sum of the table, every other edge two.
\<close>

theorem degree_tracker_self_loop_once:
  "de_bruijn_convert ''AAAA'' 1 = ([(''A'', ''A''), (''A'', ''A''), (''A'', ''A'')], [''A'']) \<and>
   dictionary_of_node_edge_frequencies [(''A'', ''A''), (''A'', ''A''), (''A'', ''A'')] [''A'']
     = [(''A'', 3)]"
  by code_simp

subsection \<open>The Eulerian Trail Finder\<close>

lemma find_tour_from_end:
  "length (Edges st) \<le> i \<Longrightarrow> find_tour_from c i st = Inr (st\<lparr>tour := c # tour st\<rparr>)"
  by (subst find_tour_from.simps) simp


lemma find_tour_from_match:
  assumes "i < length (Edges st)" and "Edges st ! i = (c, b)"
    and "dict_decr c (kmer_dict st) = Inr d1" and "dict_decr b d1 = Inr d2"
    and "find_tour_from b 0 (st\<lparr>Edges := remove1 (c, b) (Edges st), kmer_dict := d2\<rparr>) = Inr st1"
  shows "find_tour_from c i st = find_tour_from c (i + 1) st1"
  using assms by (subst find_tour_from.simps) simp

lemma length_remove1_mem: "x \<in> set xs \<Longrightarrow> Suc (length (remove1 x xs)) = length xs"
  by (induction xs) auto

lemma find_tour_from_sum:
  "find_tour_from c i st = Inr st' \<Longrightarrow>
   length (Edges st') \<le> length (Edges st) \<and>
   dict_sum (kmer_dict st') =
     dict_sum (kmer_dict st) - 2 * (int (length (Edges st)) - int (length (Edges st')))"
proof (induction c i st arbitrary: st' rule: find_tour_from.induct)
  case (1 current i st)
  show ?case
  proof (cases "i < length (Edges st)")
    case False
    with "1.prems" show ?thesis by (subst (asm) find_tour_from.simps) auto
  next
    case True
    obtain a b where ab: "Edges st ! i = (a, b)" by (cases "Edges st ! i")
    show ?thesis
    proof (cases "a = current")
      case False
      with True ab "1.prems" have "find_tour_from current (i + 1) st = Inr st'"
        by (subst (asm) find_tour_from.simps) simp
      with "1.IH"(3)[OF True ab[symmetric] False] show ?thesis by simp
    next
      case ac: True
      from True ab ac "1.prems" obtain d1 d2 st1 where
        d1: "dict_decr a (kmer_dict st) = Inr d1" and d2: "dict_decr b d1 = Inr d2"
        and r1: "find_tour_from b 0
                   (st\<lparr>Edges := remove1 (a, b) (Edges st), kmer_dict := d2\<rparr>) = Inr st1"
        and r2: "find_tour_from current (i + 1) st1 = Inr st'"
        by (subst (asm) find_tour_from.simps) (auto split: sum.splits)
      have mem: "(a, b) \<in> set (Edges st)" using True ab by (metis nth_mem)
      then have "Suc (length (remove1 (a, b) (Edges st))) = length (Edges st)"
        by (rule length_remove1_mem)
      then have len: "int (length (remove1 (a, b) (Edges st))) = int (length (Edges st)) - 1"
        by linarith
      have s2: "dict_sum d2 = dict_sum (kmer_dict st) - 2"
        using dict_decr_sum[OF d1] dict_decr_sum[OF d2] by simp
      from "1.IH"(1)[OF True ab[symmetric] ac d1 d2 r1]
      have h1: "int (length (Edges st1)) \<le> int (length (Edges st)) - 1"
        "dict_sum (kmer_dict st1) =
           dict_sum d2 - 2 * (int (length (Edges st)) - 1 - int (length (Edges st1)))"
        using len by simp_all
      from "1.IH"(2)[OF True ab[symmetric] ac d1 d2 r1 r2]
      have h2: "length (Edges st') \<le> length (Edges st1)"
        "dict_sum (kmer_dict st') =
           dict_sum (kmer_dict st1) - 2 * (int (length (Edges st1)) - int (length (Edges st')))"
        by simp_all
      from h1 h2 s2 show ?thesis by simp
    qed
  qed
qed




text \<open>
  Claim C3 says that the sum of the degree table is zero when every edge has been consumed.
  Each consumed edge takes two from the sum (\<open>find_tour_from_sum\<close>), but a self-loop had
  added only one: on \<^verbatim>\<open>AAAA\<close> with \<open>k = 1\<close> the attempt consumes the three edges and
  leaves the sum at \<open>-3\<close>.
\<close>

theorem degree_sum_not_zero_after_all_edges:
  "attempt ''AAAA'' 1 [] =
     Inr \<lparr>Edges = [], tour = [''A'', ''A'', ''A'', ''A''], kmer_dict = [(''A'', - 3)]\<rparr> \<and>
   dict_sum [(''A'', - 3)] = - 3"
  by code_simp

text \<open>
  Claim C4 says that an invocation at a node removes every edge that leaves the node. The
  removal shifts the list under the iterator, so the scan can pass over such an edge: on
  \<^verbatim>\<open>ACATAG\<close> with \<open>k = 1\<close> and the order below, the invocation at \<^verbatim>\<open>A\<close> returns
  with the edge from \<^verbatim>\<open>A\<close> to \<^verbatim>\<open>T\<close> still in the list.
\<close>

theorem find_tour_skips_edge:
  "shuffled_edges [0, 3, 1, 2] (fst (de_bruijn_convert ''ACATAG'' 1)) =
     Inr [(''A'', ''C''), (''C'', ''A''), (''A'', ''G''), (''A'', ''T''), (''T'', ''A'')] \<and>
   find_tour ''A'' [(''A'', ''C''), (''C'', ''A''), (''A'', ''G''), (''A'', ''T''), (''T'', ''A'')] []
       [(''A'', 5), (''C'', 2), (''T'', 2), (''G'', 1)] =
     Inr \<lparr>Edges = [(''A'', ''T''), (''T'', ''A'')], tour = [''A'', ''C'', ''A'', ''G''],
          kmer_dict = [(''A'', 2), (''C'', 0), (''T'', 2), (''G'', 0)]\<rparr> \<and>
   dictionary_of_node_edge_frequencies
       [(''A'', ''C''), (''C'', ''A''), (''A'', ''G''), (''A'', ''T''), (''T'', ''A'')]
       (snd (de_bruijn_convert ''ACATAG'' 1)) =
     [(''A'', 5), (''C'', 2), (''T'', 2), (''G'', 1)]"
  by code_simp


subsection \<open>The k-mers of the sequence\<close>






lemma de_bruijn_convert_endpoints:
  "\<forall>e\<in>set (fst (de_bruijn_convert s k)).
     fst e \<in> set (snd (de_bruijn_convert s k)) \<and> snd e \<in> set (snd (de_bruijn_convert s k))"
  unfolding de_bruijn_convert_nodes_set de_bruijn_convert_edges by auto

subsection \<open>The run on a sequence without repeated k-mers\<close>





subsection \<open>Graphs with self-loops\<close>

text \<open>
  On the graph of a sequence no attempt raises: every end of an edge is a key of the
  degree table.
\<close>

lemma find_tour_from_ok:
  "\<forall>e\<in>set (Edges st). fst e \<in> set (map fst (kmer_dict st)) \<and>
                        snd e \<in> set (map fst (kmer_dict st)) \<Longrightarrow>
   \<exists>st'. find_tour_from c i st = Inr st' \<and> set (Edges st') \<subseteq> set (Edges st) \<and>
         map fst (kmer_dict st') = map fst (kmer_dict st)"
proof (induction c i st rule: find_tour_from.induct)
  case (1 current i st)
  show ?case
  proof (cases "i < length (Edges st)")
    case False
    then show ?thesis by (simp add: find_tour_from_end)
  next
    case True
    obtain a b where ab: "Edges st ! i = (a, b)" by (cases "Edges st ! i")
    show ?thesis
    proof (cases "a = current")
      case False
      have "find_tour_from current i st = find_tour_from current (i + 1) st"
        using True ab False by (subst find_tour_from.simps) simp
      with "1.IH"(3)[OF True ab[symmetric] False "1.prems"] show ?thesis by simp
    next
      case ac: True
      have mem: "(a, b) \<in> set (Edges st)" using True ab by (metis nth_mem)
      with "1.prems" have keys: "a \<in> set (map fst (kmer_dict st))"
        "b \<in> set (map fst (kmer_dict st))" by force+
      from keys(1) obtain d1 where d1: "dict_decr a (kmer_dict st) = Inr d1"
        using dict_decr_ok by blast
      have k1: "map fst d1 = map fst (kmer_dict st)" by (rule dict_decr_keys[OF d1])
      from keys(2) k1 obtain d2 where d2: "dict_decr b d1 = Inr d2"
        using dict_decr_ok[of b d1] by auto
      have k2: "map fst d2 = map fst (kmer_dict st)" using dict_decr_keys[OF d2] k1 by simp
      let ?st0 = "st\<lparr>Edges := remove1 (a, b) (Edges st), kmer_dict := d2\<rparr>"
      have p0: "\<forall>e\<in>set (Edges ?st0). fst e \<in> set (map fst (kmer_dict ?st0)) \<and>
                        snd e \<in> set (map fst (kmer_dict ?st0))"
        using "1.prems" k2 by (auto dest: notin_set_remove1)
      from "1.IH"(1)[OF True ab[symmetric] ac d1 d2 p0] obtain st1 where
        r1: "find_tour_from b 0 ?st0 = Inr st1" and e1: "set (Edges st1) \<subseteq> set (Edges ?st0)"
        and f1: "map fst (kmer_dict st1) = map fst (kmer_dict ?st0)" by blast
      have sub1: "set (Edges st1) \<subseteq> set (Edges st)"
        using e1 set_remove1_subset[of "(a, b)" "Edges st"] by auto
      have p1: "\<forall>e\<in>set (Edges st1). fst e \<in> set (map fst (kmer_dict st1)) \<and>
                        snd e \<in> set (map fst (kmer_dict st1))"
        using "1.prems" sub1 f1 k2 by auto
      from "1.IH"(2)[OF True ab[symmetric] ac d1 d2 r1 p1] obtain st' where
        r2: "find_tour_from current (i + 1) st1 = Inr st'"
        and e2: "set (Edges st') \<subseteq> set (Edges st1)"
        and f2: "map fst (kmer_dict st') = map fst (kmer_dict st1)" by blast
      have "find_tour_from current i st = find_tour_from current (i + 1) st1"
        using True ab ac d1 d2 r1 by (intro find_tour_from_match[where b = b]) auto
      with r2 e2 f2 sub1 f1 k2 show ?thesis by auto
    qed
  qed
qed

lemma sum_list_mset_cong:
  "mset xs = mset ys \<Longrightarrow> sum_list (map f xs) = sum_list (map (f :: 'a \<Rightarrow> int) ys)"
proof -
  assume "mset xs = mset ys"
  then have "mset (map f xs) = mset (map f ys)" by (metis mset_map)
  then show ?thesis by (metis sum_mset_sum_list)
qed

lemma attempt_ok:
  assumes k: "k < length s"
  shows "\<exists>st. attempt s k p = Inr st \<and>
           dict_sum (kmer_dict st) =
             (\<Sum>e\<leftarrow>fst (de_bruijn_convert s k). if fst e = snd e then 1 else 2)
             - 2 * (int (length s - k) - int (length (Edges st)))"
proof -
  let ?es = "fst (de_bruijn_convert s k)"
  let ?ns = "snd (de_bruijn_convert s k)"
  have len: "length ?es = length s - k" by (simp add: de_bruijn_convert_edges)
  with k obtain e0 es' where es: "?es = e0 # es'" by (cases ?es) auto
  let ?g = "e0 # shuffle p es'"
  let ?d = "dictionary_of_node_edge_frequencies ?g ?ns"
  have sh: "shuffled_edges p ?es = Inr ?g" by (simp add: es shuffled_edges_Cons)
  have ms: "mset ?g = mset ?es" by (simp add: es mset_shuffle)
  then have st: "set ?g = set ?es" by (rule mset_eq_setD)
  have ends: "\<forall>e\<in>set ?g. fst e \<in> set ?ns \<and> snd e \<in> set ?ns"
    using de_bruijn_convert_endpoints[of s k] st by simp
  have "dict_sum ?d = (\<Sum>e\<leftarrow>?g. if fst e = snd e then 1 else 2)"
    by (rule dict_sum_dictionary[OF de_bruijn_convert_nodes_distinct ends])
  also have "\<dots> = (\<Sum>e\<leftarrow>?es. if fst e = snd e then 1 else 2)"
    by (rule sum_list_mset_cong[OF ms])
  finally have sum: "dict_sum ?d = (\<Sum>e\<leftarrow>?es. if fst e = snd e then 1 else 2)" .
  have att: "attempt s k p = find_tour_from (fst e0) 0 \<lparr>Edges = ?g, tour = [], kmer_dict = ?d\<rparr>"
    using sh by (simp add: attempt_def case_prod_beta find_tour_def)
  have "\<forall>e\<in>set (Edges \<lparr>Edges = ?g, tour = [], kmer_dict = ?d\<rparr>).
           fst e \<in> set (map fst (kmer_dict \<lparr>Edges = ?g, tour = [], kmer_dict = ?d\<rparr>)) \<and>
           snd e \<in> set (map fst (kmer_dict \<lparr>Edges = ?g, tour = [], kmer_dict = ?d\<rparr>))"
    using ends by (simp add: dictionary_keys[OF de_bruijn_convert_nodes_distinct])
  from find_tour_from_ok[OF this, of "fst e0" 0] obtain st' where
    run: "find_tour_from (fst e0) 0 \<lparr>Edges = ?g, tour = [], kmer_dict = ?d\<rparr> = Inr st'"
    by blast
  have "length ?g = length s - k" using mset_eq_length[OF ms] len by simp
  with find_tour_from_sum[OF run] sum have
    "dict_sum (kmer_dict st') =
       (\<Sum>e\<leftarrow>?es. if fst e = snd e then 1 else 2)
       - 2 * (int (length s - k) - int (length (Edges st')))"
    by simp
  with run att show ?thesis by simp
qed

text \<open>
  An attempt takes an even number from the sum of the table, and a self-loop has added an odd
  number to it. With an odd number of self-loops the sum is odd after every attempt, the
  test of the loop never fails, and the run does not end. The sequences \<^verbatim>\<open>ATGGGTCA\<close>
  with \<open>k = 2\<close> and \<^verbatim>\<open>AAAA\<close> with \<open>k = 1\<close> are such inputs.
\<close>

lemma find_eulerian_while_odd:
  assumes "find_eulerian_while ps s k t d tv = Some r"
  shows "\<not> (k < length s \<and>
     odd (\<Sum>e\<leftarrow>fst (de_bruijn_convert s k). if fst e = snd e then (1::int) else 2) \<and>
     odd (dict_sum d))"
proof (rule find_eulerian_while.raw_induct[where P = "\<lambda>ps s k t d tv r. \<not> (k < length s \<and>
     odd (\<Sum>e\<leftarrow>fst (de_bruijn_convert s k). if fst e = snd e then (1::int) else 2) \<and>
     odd (dict_sum d))", OF _ assms])
  fix f :: "(nat \<Rightarrow> nat list) \<Rightarrow> string \<Rightarrow> nat \<Rightarrow> nat \<Rightarrow> freq_dict \<Rightarrow> kmer list option \<Rightarrow>
            (error + kmer list) option"
    and ps s k t d tv r
  assume IH: "\<And>ps s k t d tv r. f ps s k t d tv = Some r \<Longrightarrow> \<not> (k < length s \<and>
     odd (\<Sum>e\<leftarrow>fst (de_bruijn_convert s k). if fst e = snd e then (1::int) else 2) \<and>
     odd (dict_sum d))"
    and body: "(if dict_sum d \<noteq> 0
      then case attempt s k (ps t) of Inl e \<Rightarrow> Some (Inl e)
           | Inr st \<Rightarrow> f ps s k (t + 1) (kmer_dict st) (Some (tour st))
      else case tv of None \<Rightarrow> Some (Inl UnboundLocalError)
           | Some tr \<Rightarrow> Some (Inr tr)) = Some r"
  show "\<not> (k < length s \<and>
     odd (\<Sum>e\<leftarrow>fst (de_bruijn_convert s k). if fst e = snd e then (1::int) else 2) \<and>
     odd (dict_sum d))"
  proof
    assume a: "k < length s \<and>
      odd (\<Sum>e\<leftarrow>fst (de_bruijn_convert s k). if fst e = snd e then (1::int) else 2) \<and>
      odd (dict_sum d)"
    then have nz: "dict_sum d \<noteq> 0" by auto
    from a attempt_ok[of k s "ps t"] obtain st where
      att: "attempt s k (ps t) = Inr st" and
      sum: "dict_sum (kmer_dict st) =
             (\<Sum>e\<leftarrow>fst (de_bruijn_convert s k). if fst e = snd e then 1 else 2)
             - 2 * (int (length s - k) - int (length (Edges st)))" by blast
    from a sum have odd: "odd (dict_sum (kmer_dict st))" by simp
    from body nz att have "f ps s k (t + 1) (kmer_dict st) (Some (tour st)) = Some r"
      by simp
    from IH[OF this] a odd show False by simp
  qed
qed

lemma main_odd_self_loops:
  assumes "k < length s"
    and "odd (length (filter (\<lambda>e. fst e = snd e) (fst (de_bruijn_convert s k))))"
  shows "main ps s k = None"
proof -
  let ?es = "fst (de_bruijn_convert s k)"
  let ?ns = "snd (de_bruijn_convert s k)"
  have "(\<Sum>e\<leftarrow>es. if fst e = snd e then (1::int) else 2) =
        2 * int (length es) - int (length (filter (\<lambda>e. fst e = snd e) es))" for es :: "edge list"
    by (induction es) auto
  with assms(2) have odd: "odd (\<Sum>e\<leftarrow>?es. if fst e = snd e then (1::int) else 2)" by simp
  have len: "length ?es = length s - k" by (simp add: de_bruijn_convert_edges)
  with assms(1) obtain e0 es' where es: "?es = e0 # es'" by (cases ?es) auto
  let ?g = "e0 # shuffle (ps 0) es'"
  have sh: "shuffled_edges (ps 0) ?es = Inr ?g" by (simp add: es shuffled_edges_Cons)
  have ms: "mset ?g = mset ?es" by (simp add: es mset_shuffle)
  then have st: "set ?g = set ?es" by (rule mset_eq_setD)
  have ends: "\<forall>e\<in>set ?g. fst e \<in> set ?ns \<and> snd e \<in> set ?ns"
    using de_bruijn_convert_endpoints[of s k] st by simp
  have "dict_sum (dictionary_of_node_edge_frequencies ?g ?ns) =
        (\<Sum>e\<leftarrow>?g. if fst e = snd e then 1 else 2)"
    by (rule dict_sum_dictionary[OF de_bruijn_convert_nodes_distinct ends])
  also have "\<dots> = (\<Sum>e\<leftarrow>?es. if fst e = snd e then 1 else 2)"
    by (rule sum_list_mset_cong[OF ms])
  finally have "dict_sum (dictionary_of_node_edge_frequencies ?g ?ns) =
        (\<Sum>e\<leftarrow>?es. if fst e = snd e then 1 else 2)" .
  with odd have "odd (dict_sum (dictionary_of_node_edge_frequencies ?g ?ns))" by simp
  with find_eulerian_while_odd[of ps s k 1 "dictionary_of_node_edge_frequencies ?g ?ns" None]
    assms(1) odd
  have "find_eulerian_while ps s k 1 (dictionary_of_node_edge_frequencies ?g ?ns) None = None"
    by (cases "find_eulerian_while ps s k 1 (dictionary_of_node_edge_frequencies ?g ?ns) None") auto
  then have "find_eulerian_tour ps s k ?g = None"
    by (simp add: find_eulerian_tour_def case_prod_beta)
  with sh show ?thesis by (simp add: main_def case_prod_beta)
qed

lemma main_documented_example: "main ps ''ATGGGTCA'' 2 = None"
proof (rule main_odd_self_loops)
  show "2 < length ''ATGGGTCA''" by simp
  show "odd (length (filter (\<lambda>e. fst e = snd e) (fst (de_bruijn_convert ''ATGGGTCA'' 2))))"
    by code_simp
qed

lemma main_AAAA: "main ps ''AAAA'' 1 = None"
proof (rule main_odd_self_loops)
  show "1 < length ''AAAA''" by simp
  show "odd (length (filter (\<lambda>e. fst e = snd e) (fst (de_bruijn_convert ''AAAA'' 1))))"
    by code_simp
qed








end
